theory Spec2Isabelle
  imports Complex_Main "HOL-Library.Log_Nat" "HOL-Library.Multiset" "HOL-Library.Sublist"
begin

section \<open>RegiMed rule matching: compare.py and the report of app.py\<close>

subsection \<open>Python values\<close>

text \<open>
  A Python \<open>str\<close> is a sequence of Unicode code points; a code point is a natural
  number. Python's \<open>int\<close> is unbounded and is modelled by \<open>int\<close>.
\<close>

type_synonym pystr = "nat list"

text \<open>
  A Python \<open>float\<close> is an IEEE binary64 number. The finite ones are rationals; the
  similarity computed below is always finite, the caller's threshold may be any float.
\<close>

datatype pyfloat = Finite rat | PosInf | NegInf | NaN

text \<open>\<open>x >= t\<close> for a finite float \<open>x\<close> and a float \<open>t\<close>.\<close>

fun float_ge :: "rat \<Rightarrow> pyfloat \<Rightarrow> bool" where
  "float_ge x (Finite t) = (t \<le> x)"
| "float_ge x PosInf = False"
| "float_ge x NegInf = True"
| "float_ge x NaN = False"

text \<open>\<open>x <= t\<close> for a finite float \<open>x\<close> and a float \<open>t\<close>.\<close>

fun float_le :: "rat \<Rightarrow> pyfloat \<Rightarrow> bool" where
  "float_le x (Finite t) = (x \<le> t)"
| "float_le x PosInf = True"
| "float_le x NegInf = False"
| "float_le x NaN = False"

text \<open>
  The values stored in the result dictionaries of \<open>check_rules\<close>, and a dictionary with
  string keys as its items in insertion order.
\<close>

datatype pyval = Str pystr | Bool bool | Float rat

type_synonym pydict = "(string \<times> pyval) list"

text \<open>\<open>d.get(k)\<close> is \<open>map_of d k\<close>, with \<open>None\<close> for Python's \<open>None\<close>; \<open>d.get(k, v)\<close>:\<close>

definition dict_get :: "pydict \<Rightarrow> string \<Rightarrow> pyval \<Rightarrow> pyval" where
  "dict_get d k v = (case map_of d k of None \<Rightarrow> v | Some w \<Rightarrow> w)"

text \<open>Truth value of an object, as \<open>not x\<close> tests it.\<close>

fun truthy :: "pyval option \<Rightarrow> bool" where
  "truthy None = False"
| "truthy (Some (Str s)) = (s \<noteq> [])"
| "truthy (Some (Bool b)) = b"
| "truthy (Some (Float x)) = (x \<noteq> 0)"

subsection \<open>Binary64 arithmetic\<close>

text \<open>
  Rounding of a rational to the nearest number with a 53 bit significand, ties to the
  even significand. The exponent range is not bounded here: a string has fewer than
  \<open>2 ^ 63\<close> code points, so the quotients below are 0 or lie between \<open>2 powi - 63\<close> and
  1, far from the subnormal and the overflow range of binary64.
\<close>

definition round_half_even :: "rat \<Rightarrow> int" where
  "round_half_even q =
     (let f = \<lfloor>q\<rfloor>; r = q - of_int f
      in if r < 1 / 2 then f else if 1 / 2 < r then f + 1 else if even f then f else f + 1)"

text \<open>For \<open>0 < q\<close>, the exponent \<open>e\<close> with \<open>2 powi e \<le> q < 2 powi (e + 1)\<close>.\<close>

definition binade :: "rat \<Rightarrow> int" where
  "binade q =
     (let (n, d) = quotient_of q;
          e0 = bitlen n - bitlen d
      in if 2 powi e0 \<le> q then e0 else e0 - 1)"

definition to_double :: "rat \<Rightarrow> rat" where
  "to_double q =
     (if q = 0 then 0
      else let e = binade \<bar>q\<bar>
           in sgn q * of_int (round_half_even (\<bar>q\<bar> * 2 powi (52 - e))) * 2 powi (e - 52))"

subsection \<open>difflib.SequenceMatcher.quick\_ratio\<close>

text \<open>
  \<open>check_rules\<close> calls \<open>difflib.SequenceMatcher(None, a, b).quick_ratio()\<close> of the Python
  standard library:
  \<^verbatim>\<open>
    fullbcount = {}
    for elt in self.b:
        fullbcount[elt] = fullbcount.get(elt, 0) + 1
    avail = {}
    availhas, matches = avail.__contains__, 0
    for elt in self.a:
        if availhas(elt):
            numb = avail[elt]
        else:
            numb = fullbcount.get(elt, 0)
        avail[elt] = numb - 1
        if numb > 0:
            matches = matches + 1
    return _calculate_ratio(matches, len(self.a) + len(self.b))
  \<close>
  with
  \<^verbatim>\<open>
    def _calculate_ratio(matches, length):
        if length:
            return 2.0 * matches / length
        return 1.0
  \<close>
  The two dictionaries are maps from elements to integers. The junk heuristics of the
  constructor play no part here: \<open>quick_ratio\<close> reads the two sequences themselves.
\<close>

definition count_get :: "('a \<rightharpoonup> int) \<Rightarrow> 'a \<Rightarrow> int \<Rightarrow> int" where
  "count_get m k v = (case m k of None \<Rightarrow> v | Some w \<Rightarrow> w)"

fun fullbcount_loop :: "'a list \<Rightarrow> ('a \<rightharpoonup> int) \<Rightarrow> ('a \<rightharpoonup> int)" where
  "fullbcount_loop [] fullbcount = fullbcount"
| "fullbcount_loop (elt # b) fullbcount =
     fullbcount_loop b (fullbcount(elt \<mapsto> count_get fullbcount elt 0 + 1))"

fun matches_loop :: "'a list \<Rightarrow> ('a \<rightharpoonup> int) \<Rightarrow> ('a \<rightharpoonup> int) \<Rightarrow> int \<Rightarrow> int" where
  "matches_loop [] fullbcount avail matches = matches"
| "matches_loop (elt # a) fullbcount avail matches =
     (let numb = (case avail elt of Some n \<Rightarrow> n | None \<Rightarrow> count_get fullbcount elt 0)
      in matches_loop a fullbcount (avail(elt \<mapsto> numb - 1))
           (if 0 < numb then matches + 1 else matches))"

text \<open>
  \<open>2.0 * matches\<close> converts \<open>matches\<close> to the nearest float and doubles it (exact); the
  division converts \<open>length\<close> to the nearest float and rounds the quotient.
\<close>

definition calculate_ratio :: "int \<Rightarrow> int \<Rightarrow> rat" where
  "calculate_ratio matches len =
     (if len \<noteq> 0 then to_double (2 * to_double (of_int matches) / to_double (of_int len))
      else 1)"

definition quick_ratio :: "'a list \<Rightarrow> 'a list \<Rightarrow> rat" where
  "quick_ratio a b =
     calculate_ratio (matches_loop a (fullbcount_loop b Map.empty) Map.empty 0)
       (int (length a) + int (length b))"

subsection \<open>Strings\<close>

text \<open>\<open>sub in s\<close>: \<open>sub\<close> occurs in \<open>s\<close> at some position.\<close>

fun py_in :: "'a list \<Rightarrow> 'a list \<Rightarrow> bool" where
  "py_in sub [] = (sub = [])"
| "py_in sub (c # s) = (prefix sub (c # s) \<or> py_in sub s)"

text \<open>
  \<open>str.isspace\<close> for one code point (the interpreter's \<open>_PyUnicode_IsWhitespace\<close>), and
  \<open>str.strip()\<close> without argument, which removes such code points at both ends.
\<close>

definition isspace :: "nat \<Rightarrow> bool" where
  "isspace c \<longleftrightarrow>
     (9 \<le> c \<and> c \<le> 13) \<or> (28 \<le> c \<and> c \<le> 32) \<or> c = 133 \<or> c = 160 \<or> c = 5760 \<or>
     (8192 \<le> c \<and> c \<le> 8202) \<or> c = 8232 \<or> c = 8233 \<or> c = 8239 \<or> c = 8287 \<or> c = 12288"

definition strip :: "pystr \<Rightarrow> pystr" where
  "strip s = rev (dropWhile isspace (rev (dropWhile isspace s)))"

text \<open>
  \<open>str.lower\<close> is the interpreter's Unicode case mapping (with its rule for the final
  sigma); it is a parameter \<open>lower\<close> of the functions below. It maps the empty string to
  the empty string and every other string to a non-empty one. On ASCII strings it is
  \<open>ascii_lower\<close>.
\<close>

definition lower_keeps_empty :: "(pystr \<Rightarrow> pystr) \<Rightarrow> bool" where
  "lower_keeps_empty lower \<longleftrightarrow> (\<forall>s. lower s = [] \<longleftrightarrow> s = [])"

definition ascii_lower :: "pystr \<Rightarrow> pystr" where
  "ascii_lower s = map (\<lambda>c. if 65 \<le> c \<and> c \<le> 90 then c + 32 else c) s"

subsection \<open>compare.py\<close>

datatype py_error =
  FileNotFoundError | PermissionError | IsADirectoryError | UnicodeDecodeError | OSError

text \<open>
  The file system as \<open>load_rules\<close> sees it: what \<open>open(path, "r", encoding="utf-8")\<close>
  followed by \<open>f.readlines()\<close> gives for a path, the exception raised or the lines read.
\<close>

type_synonym filesystem = "pystr \<Rightarrow> py_error + pystr list"

definition load_rules :: "filesystem \<Rightarrow> pystr \<Rightarrow> py_error + pystr list" where
  "load_rules fs path =
     (case fs path of
        Inr lines \<Rightarrow> Inr [strip line. line \<leftarrow> lines, strip line \<noteq> []]
      | Inl FileNotFoundError \<Rightarrow> Inr []
      | Inl e \<Rightarrow> Inl e)"

fun check_rules_loop ::
  "(pystr \<Rightarrow> pystr) \<Rightarrow> pystr \<Rightarrow> pyfloat \<Rightarrow> pystr list \<Rightarrow> pydict list \<Rightarrow> pydict list" where
  "check_rules_loop lower text_lower threshold [] results = results"
| "check_rules_loop lower text_lower threshold (rule # rules) results =
     (let rule_lower = lower rule;
          ratio = quick_ratio rule_lower text_lower;
          found = (py_in rule_lower text_lower \<or> float_ge ratio threshold)
      in check_rules_loop lower text_lower threshold rules
           (results @ [[(''rule'', Str rule), (''found'', Bool found),
                        (''similarity'', Float ratio)]]))"

definition check_rules ::
  "(pystr \<Rightarrow> pystr) \<Rightarrow> pystr \<Rightarrow> pystr list \<Rightarrow> pyfloat \<Rightarrow> pydict list" where
  "check_rules lower text rules threshold =
     check_rules_loop lower (lower text) threshold rules []"

definition default_threshold :: pyfloat where
  "default_threshold = Finite (1 / 2)"

fun summarize_missing_loop :: "pydict list \<Rightarrow> pyval list \<Rightarrow> pyval list" where
  "summarize_missing_loop [] missing = missing"
| "summarize_missing_loop (result # results) missing =
     summarize_missing_loop results
       (if \<not> truthy (map_of result ''found'')
        then missing @ [dict_get result ''rule'' (Str [])] else missing)"

definition summarize_missing :: "pydict list \<Rightarrow> pyval list" where
  "summarize_missing results = summarize_missing_loop results []"

subsection \<open>app.py: the response of upload\_file\<close>

record response =
  filename :: pystr
  total_rules :: int
  rules_found :: int
  rules_missing :: int
  missing_rules :: "pyval list"
  details :: "pydict list"
  compliant :: bool

text \<open>
  The part of \<open>upload_file\<close> after the text has been extracted: it loads the rules from
  \<open>rules_path\<close>, checks them with the default threshold and builds the response. An
  exception of \<open>load_rules\<close> is not caught.
\<close>

definition upload_response ::
  "(pystr \<Rightarrow> pystr) \<Rightarrow> filesystem \<Rightarrow> pystr \<Rightarrow> pystr \<Rightarrow> pystr \<Rightarrow> py_error + response" where
  "upload_response lower fs rules_path fname text =
     (case load_rules fs rules_path of
        Inl e \<Rightarrow> Inl e
      | Inr rules \<Rightarrow>
          (let results = check_rules lower text rules default_threshold;
               missing = summarize_missing results
           in Inr \<lparr>filename = fname,
                   total_rules = int (length rules),
                   rules_found = int (length rules) - int (length missing),
                   rules_missing = int (length missing),
                   missing_rules = missing,
                   details = results,
                   compliant = (length missing = 0)\<rparr>))"

subsection \<open>The similarity measure in the words of the specification\<close>

text \<open>
  The specification describes the similarity as twice the number of matching characters
  in the longest common matching alignment of the two strings, divided by the sum of
  their lengths. A matching alignment pairs equal characters of the two strings in
  order; a longest one has as many pairs as a longest common subsequence has elements.
\<close>

fun lcs_length :: "'a list \<Rightarrow> 'a list \<Rightarrow> nat" where
  "lcs_length [] b = 0"
| "lcs_length (x # a) [] = 0"
| "lcs_length (x # a) (y # b) =
     (if x = y then Suc (lcs_length a b)
      else max (lcs_length a (y # b)) (lcs_length (x # a) b))"

definition spec_alignment_ratio :: "'a list \<Rightarrow> 'a list \<Rightarrow> rat" where
  "spec_alignment_ratio a b = 2 * of_nat (lcs_length a b) / of_nat (length a + length b)"

section \<open>Properties\<close>

subsection \<open>The loops as list operations\<close>

lemma py_in_sublist: "py_in sub s \<longleftrightarrow> sublist sub s"
  by (induction s) (simp_all add: sublist_Cons_right)

lemma py_in_iff: "py_in sub s \<longleftrightarrow> (\<exists>p t. s = p @ sub @ t)"
  by (simp add: py_in_sublist sublist_def)

lemma check_rules_loop_map:
  "check_rules_loop lower text_lower threshold rules results =
     results @ map (\<lambda>rule.
       [(''rule'', Str rule),
        (''found'', Bool (py_in (lower rule) text_lower
                          \<or> float_ge (quick_ratio (lower rule) text_lower) threshold)),
        (''similarity'', Float (quick_ratio (lower rule) text_lower))]) rules"
  by (induction rules arbitrary: results) (simp_all add: Let_def)

lemma check_rules_map:
  "check_rules lower text rules threshold =
     map (\<lambda>rule.
       [(''rule'', Str rule),
        (''found'', Bool (py_in (lower rule) (lower text)
                          \<or> float_ge (quick_ratio (lower rule) (lower text)) threshold)),
        (''similarity'', Float (quick_ratio (lower rule) (lower text)))]) rules"
  by (simp add: check_rules_def check_rules_loop_map)

lemma summarize_missing_loop_filter:
  "summarize_missing_loop results missing =
     missing @ map (\<lambda>result. dict_get result ''rule'' (Str []))
                 (filter (\<lambda>result. \<not> truthy (map_of result ''found'')) results)"
  by (induction results arbitrary: missing) simp_all

lemma summarize_missing_filter:
  "summarize_missing results =
     map (\<lambda>result. dict_get result ''rule'' (Str []))
       (filter (\<lambda>result. \<not> truthy (map_of result ''found'')) results)"
  by (simp add: summarize_missing_def summarize_missing_loop_filter)

subsection \<open>strip and the rule file\<close>

lemma load_rules_filter:
  "[strip line. line \<leftarrow> lines, strip line \<noteq> []] = filter (\<lambda>r. r \<noteq> []) (map strip lines)"
  by (induction lines) simp_all

lemma rev_dropWhile_takeWhile:
  "rev (dropWhile P (rev xs)) @ rev (takeWhile P (rev xs)) = xs"
proof -
  have "rev (takeWhile P (rev xs) @ dropWhile P (rev xs)) = xs" by simp
  then show ?thesis by (simp only: rev_append)
qed

lemma strip_decomp:
  "\<exists>p t. s = p @ strip s @ t \<and> (\<forall>c \<in> set p. isspace c) \<and> (\<forall>c \<in> set t. isspace c)"
proof -
  let ?d = "dropWhile isspace s"
  have "?d = strip s @ rev (takeWhile isspace (rev ?d))"
    by (simp only: strip_def rev_dropWhile_takeWhile)
  moreover have "s = takeWhile isspace s @ ?d" by simp
  ultimately have "s = takeWhile isspace s @ strip s @ rev (takeWhile isspace (rev ?d))"
    by simp
  moreover have "\<forall>c \<in> set (takeWhile isspace s). isspace c"
    by (auto dest: set_takeWhileD)
  moreover have "\<forall>c \<in> set (rev (takeWhile isspace (rev ?d))). isspace c"
    by (auto dest: set_takeWhileD)
  ultimately show ?thesis by blast
qed

lemma strip_ends:
  assumes "strip s \<noteq> []"
  shows "\<not> isspace (hd (strip s))" and "\<not> isspace (last (strip s))"
proof -
  let ?d = "dropWhile isspace s"
  let ?e = "dropWhile isspace (rev ?d)"
  have e: "?e \<noteq> []" using assms by (simp add: strip_def)
  then have "\<not> isspace (hd ?e)" by (rule hd_dropWhile)
  then show "\<not> isspace (last (strip s))" using e by (simp add: strip_def last_rev)
  have d: "?d = strip s @ rev (takeWhile isspace (rev ?d))"
    by (simp only: strip_def rev_dropWhile_takeWhile)
  have "?d \<noteq> []"
  proof
    assume "?d = []"
    with d have "strip s @ rev (takeWhile isspace (rev ?d)) = []" by (simp only:)
    with assms show False by (simp only: append_is_Nil_conv, simp)
  qed
  then have "\<not> isspace (hd ?d)" by (rule hd_dropWhile)
  moreover have "hd ?d = hd (strip s)" using assms by (subst d) simp
  ultimately show "\<not> isspace (hd (strip s))" by simp
qed

lemma strip_idem_if_ends:
  assumes "s \<noteq> []" "\<not> isspace (hd s)" "\<not> isspace (last s)"
  shows "strip s = s"
proof -
  have "dropWhile isspace s = s" using assms by (cases s) simp_all
  moreover have "dropWhile isspace (rev s) = rev s"
    using assms by (cases "rev s") (simp_all add: hd_rev [symmetric] del: hd_rev)
  ultimately show ?thesis by (simp add: strip_def)
qed

lemma strip_strip: "strip (strip s) = strip s"
proof (cases "strip s = []")
  case True
  moreover have "strip [] = []" by (simp add: strip_def)
  ultimately show ?thesis by simp
next
  case False
  then show ?thesis by (intro strip_idem_if_ends strip_ends)
qed

subsection \<open>Rounding to binary64\<close>

lemma bitlen_rat_bounds:
  fixes k :: int
  assumes "0 < k"
  shows "(2::rat) powi (bitlen k - 1) \<le> of_int k"
    and "(of_int k :: rat) < 2 powi (bitlen k)"
proof -
  note b = bitlen_bounds [OF assms]
  have b1: "1 \<le> bitlen k"
    using assms bitlen_eq_zero_iff [of k] bitlen_nonneg [of k] by linarith
  have "(of_int (2 ^ nat (bitlen k - 1)) :: rat) \<le> of_int k"
    using b by (simp only: of_int_le_iff)
  then have "(2::rat) ^ nat (bitlen k - 1) \<le> of_int k"
    by (simp only: of_int_power of_int_numeral)
  then have "(2::rat) powi (int (nat (bitlen k - 1))) \<le> of_int k"
    by (simp only: power_int_of_nat)
  moreover have "int (nat (bitlen k - 1)) = bitlen k - 1" using b1 by simp
  ultimately show "(2::rat) powi (bitlen k - 1) \<le> of_int k" by (simp only:)
  have "(of_int k :: rat) < of_int (2 ^ nat (bitlen k))"
    using b by (simp only: of_int_less_iff)
  then have "(of_int k :: rat) < 2 ^ nat (bitlen k)"
    by (simp only: of_int_power of_int_numeral)
  then have "(of_int k :: rat) < 2 powi (int (nat (bitlen k)))"
    by (simp only: power_int_of_nat)
  moreover have "int (nat (bitlen k)) = bitlen k" using b1 by simp
  ultimately show "(of_int k :: rat) < 2 powi (bitlen k)" by (simp only:)
qed

lemma pw2_add: "(2::rat) powi a * 2 powi b = 2 powi (a + b)"
  by (simp add: power_int_add)

lemma pw2_le: "a \<le> b \<Longrightarrow> (2::rat) powi a \<le> 2 powi b"
  by (rule power_int_increasing) simp_all

lemma pw2_less_iff: "(2::rat) powi a < 2 powi b \<longleftrightarrow> a < b"
proof
  assume "(2::rat) powi a < 2 powi b"
  show "a < b"
  proof (rule ccontr)
    assume "\<not> a < b"
    then have "(2::rat) powi b \<le> 2 powi a" by (intro pw2_le) simp
    with \<open>2 powi a < 2 powi b\<close> show False by simp
  qed
next
  assume "a < b"
  then show "(2::rat) powi a < 2 powi b" by (rule power_int_strict_increasing) simp
qed

lemma binade_bounds:
  assumes "0 < q"
  shows "2 powi binade q \<le> q" and "q < 2 powi (binade q + 1)"
proof -
  obtain n d where nd: "quotient_of q = (n, d)" by force
  have d: "0 < d" using nd by (rule quotient_of_denom_pos)
  have q: "q = of_int n / of_int d" using nd by (rule quotient_of_div)
  have n: "0 < n" using assms d q by (simp add: zero_less_divide_iff)
  let ?bn = "bitlen n" and ?bd = "bitlen d"
  note bn = bitlen_rat_bounds [OF n] and bd = bitlen_rat_bounds [OF d]
  have dpos: "(0::rat) < of_int d" using d by simp
  have lo: "2 powi (?bn - ?bd - 1) \<le> q"
  proof -
    have "(2::rat) powi (?bn - ?bd - 1) * of_int d \<le> 2 powi (?bn - ?bd - 1) * 2 powi ?bd"
      using bd(2) by (intro mult_left_mono) simp_all
    also have "\<dots> = 2 powi (?bn - 1)" by (simp only: pw2_add) simp
    also have "\<dots> \<le> of_int n" by (rule bn(1))
    finally show ?thesis using dpos by (simp add: q pos_le_divide_eq)
  qed
  have hi: "q < 2 powi (?bn - ?bd + 1)"
  proof -
    have "(of_int n :: rat) < 2 powi ?bn" by (rule bn(2))
    also have "\<dots> = 2 powi (?bn - ?bd + 1) * 2 powi (?bd - 1)"
      by (simp only: pw2_add) simp
    also have "\<dots> \<le> 2 powi (?bn - ?bd + 1) * of_int d"
      using bd(1) by (intro mult_left_mono) simp_all
    finally show ?thesis using dpos by (simp add: q pos_divide_less_eq)
  qed
  have e: "binade q = (if 2 powi (?bn - ?bd) \<le> q then ?bn - ?bd else ?bn - ?bd - 1)"
    by (simp add: binade_def nd)
  show "2 powi binade q \<le> q" using lo by (simp add: e)
  show "q < 2 powi (binade q + 1)" using hi by (simp add: e not_le)
qed

lemma binade_unique:
  assumes "2 powi e \<le> q" and "q < 2 powi (e + 1)"
  shows "binade q = e"
proof -
  have "(0::rat) < 2 powi e" by simp
  then have pos: "0 < q" using assms(1) by (rule less_le_trans)
  note b = binade_bounds [OF pos]
  have "(2::rat) powi e < 2 powi (binade q + 1)" using assms(1) b(2) by (rule le_less_trans)
  then have "e < binade q + 1" by (simp only: pw2_less_iff)
  moreover have "(2::rat) powi binade q < 2 powi (e + 1)" using b(1) assms(2) by (rule le_less_trans)
  then have "binade q < e + 1" by (simp only: pw2_less_iff)
  ultimately show ?thesis by simp
qed


lemma round_half_even_floor: "\<lfloor>q\<rfloor> \<le> round_half_even q" "round_half_even q \<le> \<lfloor>q\<rfloor> + 1"
  by (simp_all add: round_half_even_def Let_def)

lemma round_half_even_of_int [simp]: "round_half_even (of_int k) = k"
  by (simp add: round_half_even_def)

lemma round_half_even_mono:
  assumes "x \<le> y"
  shows "round_half_even x \<le> round_half_even y"
proof (cases "\<lfloor>x\<rfloor> = \<lfloor>y\<rfloor>")
  case True
  have "x - of_int \<lfloor>y\<rfloor> \<le> y - of_int \<lfloor>y\<rfloor>" using assms by simp
  then show ?thesis by (simp add: round_half_even_def Let_def True)
next
  case False
  moreover have "\<lfloor>x\<rfloor> \<le> \<lfloor>y\<rfloor>" using assms by (rule floor_mono)
  ultimately have "\<lfloor>x\<rfloor> + 1 \<le> \<lfloor>y\<rfloor>" by simp
  with round_half_even_floor(2) [of x] round_half_even_floor(1) [of y]
  show ?thesis by linarith
qed

lemma scaled_bounds:
  assumes "0 < q"
  shows "2 ^ 52 \<le> q * 2 powi (52 - binade q)" and "q * 2 powi (52 - binade q) < 2 ^ 53"
proof -
  note b = binade_bounds [OF assms]
  have "(2::rat) powi 52 = 2 powi binade q * 2 powi (52 - binade q)"
    by (simp only: pw2_add) simp
  also have "\<dots> \<le> q * 2 powi (52 - binade q)"
    using b(1) by (intro mult_right_mono) simp_all
  finally show "2 ^ 52 \<le> q * 2 powi (52 - binade q)" by simp
  have "q * 2 powi (52 - binade q) < 2 powi (binade q + 1) * 2 powi (52 - binade q)"
    using b(2) by (intro mult_strict_right_mono) simp_all
  also have "\<dots> = 2 powi 53" by (simp only: pw2_add) simp
  finally show "q * 2 powi (52 - binade q) < 2 ^ 53" by simp
qed

lemma to_double_pos:
  "0 < q \<Longrightarrow>
   to_double q = of_int (round_half_even (q * 2 powi (52 - binade q))) * 2 powi (binade q - 52)"
  by (simp add: to_double_def Let_def)

lemma significand_bounds:
  assumes "0 < q"
  shows "2 ^ 52 \<le> round_half_even (q * 2 powi (52 - binade q))"
    and "round_half_even (q * 2 powi (52 - binade q)) \<le> 2 ^ 53"
proof -
  note s = scaled_bounds [OF assms]
  have "round_half_even (of_int (2 ^ 52)) \<le> round_half_even (q * 2 powi (52 - binade q))"
    using s(1) by (intro round_half_even_mono) simp
  then show "2 ^ 52 \<le> round_half_even (q * 2 powi (52 - binade q))"
    by (simp only: round_half_even_of_int)
  have "round_half_even (q * 2 powi (52 - binade q)) \<le> round_half_even (of_int (2 ^ 53))"
    using s(2) by (intro round_half_even_mono) simp
  then show "round_half_even (q * 2 powi (52 - binade q)) \<le> 2 ^ 53"
    by (simp only: round_half_even_of_int)
qed

lemma to_double_bounds:
  assumes "0 < q"
  shows "2 powi binade q \<le> to_double q" and "to_double q \<le> 2 powi (binade q + 1)"
proof -
  let ?m = "round_half_even (q * 2 powi (52 - binade q))"
  note m = significand_bounds [OF assms]
  have "(2::rat) powi binade q = 2 powi 52 * 2 powi (binade q - 52)"
    by (simp only: pw2_add) simp
  also have "\<dots> = of_int (2 ^ 52) * 2 powi (binade q - 52)" by simp
  also have "\<dots> \<le> of_int ?m * 2 powi (binade q - 52)"
    using m(1) by (intro mult_right_mono) (simp_all only: of_int_le_iff, simp_all)
  finally show "2 powi binade q \<le> to_double q" by (simp only: to_double_pos [OF assms])
  have "of_int ?m * (2::rat) powi (binade q - 52) \<le> of_int (2 ^ 53) * 2 powi (binade q - 52)"
    using m(2) by (intro mult_right_mono) (simp_all only: of_int_le_iff, simp_all)
  also have "\<dots> = 2 powi 53 * 2 powi (binade q - 52)" by simp
  also have "\<dots> = 2 powi (53 + (binade q - 52))" by (simp only: pw2_add)
  also have "53 + (binade q - 52) = binade q + 1" by simp
  finally show "to_double q \<le> 2 powi (binade q + 1)" by (simp only: to_double_pos [OF assms])
qed

lemma to_double_zero [simp]: "to_double 0 = 0"
  by (simp add: to_double_def)

lemma to_double_pos_pos: "0 < q \<Longrightarrow> 0 < to_double q"
  using to_double_bounds(1) [of q] by (rule_tac less_le_trans [of _ "2 powi binade q"]) simp_all

lemma to_double_mono_pos:
  assumes "0 < x" and "x \<le> y"
  shows "to_double x \<le> to_double y"
proof -
  have y: "0 < y" using assms by simp
  note bx = binade_bounds [OF assms(1)] and by' = binade_bounds [OF y]
  have "(2::rat) powi binade x < 2 powi (binade y + 1)"
    using bx(1) assms(2) by' (2) by simp
  then have "binade x < binade y + 1" by (simp only: pw2_less_iff)
  then have le: "binade x \<le> binade y" by simp
  show ?thesis
  proof (cases "binade x = binade y")
    case True
    have "x * 2 powi (52 - binade y) \<le> y * 2 powi (52 - binade y)"
      using assms(2) by (intro mult_right_mono) simp_all
    then have "round_half_even (x * 2 powi (52 - binade y))
                 \<le> round_half_even (y * 2 powi (52 - binade y))"
      by (rule round_half_even_mono)
    then have "(of_int (round_half_even (x * 2 powi (52 - binade y))) :: rat) * 2 powi (binade y - 52)
                 \<le> of_int (round_half_even (y * 2 powi (52 - binade y))) * 2 powi (binade y - 52)"
      by (intro mult_right_mono) (simp_all only: of_int_le_iff, simp_all)
    then show ?thesis by (simp only: to_double_pos [OF assms(1)] to_double_pos [OF y] True)
  next
    case False
    with le have "binade x + 1 \<le> binade y" by simp
    then have "(2::rat) powi (binade x + 1) \<le> 2 powi binade y" by (rule pw2_le)
    with to_double_bounds(2) [OF assms(1)] to_double_bounds(1) [OF y]
    show ?thesis by linarith
  qed
qed

lemma to_double_mono:
  assumes "0 \<le> x" and "x \<le> y"
  shows "to_double x \<le> to_double y"
proof (cases "x = 0")
  case True
  show ?thesis
  proof (cases "y = 0")
    case True
    with \<open>x = 0\<close> show ?thesis by simp
  next
    case False
    with assms True have "0 < y" by simp
    then have "0 < to_double y" by (rule to_double_pos_pos)
    with True show ?thesis by simp
  qed
next
  case False
  with assms(1) have "0 < x" by simp
  then show ?thesis using assms(2) by (rule to_double_mono_pos)
qed


lemma to_double_exact:
  assumes "0 < k" and "k < 2 ^ 53"
  shows "to_double (of_int k * 2 powi e) = of_int k * 2 powi e"
proof -
  let ?q = "of_int k * (2::rat) powi e"
  have q: "0 < ?q" using assms(1) by simp
  note b = binade_bounds [OF q]
  have "(of_int k :: rat) < of_int (2 ^ 53)" using assms(2) by (simp only: of_int_less_iff)
  then have "?q < 2 powi 53 * 2 powi e" by (intro mult_strict_right_mono) simp_all
  also have "\<dots> = 2 powi (53 + e)" by (simp only: pw2_add)
  finally have "(2::rat) powi binade ?q < 2 powi (53 + e)" using b(1) by simp
  then have "binade ?q < 53 + e" by (simp only: pw2_less_iff)
  then have n: "int (nat (e + (52 - binade ?q))) = e + (52 - binade ?q)" by simp
  define n where "n = nat (e + (52 - binade ?q))"
  note n = n [folded n_def]
  have "?q * 2 powi (52 - binade ?q) = of_int k * (2 powi e * 2 powi (52 - binade ?q))"
    by simp
  also have "\<dots> = of_int k * 2 powi (int n)" by (simp only: pw2_add n)
  also have "\<dots> = of_int (k * 2 ^ n)" by simp
  finally have "round_half_even (?q * 2 powi (52 - binade ?q)) = k * 2 ^ n"
    by (simp only: round_half_even_of_int)
  then have "to_double ?q = of_int (k * 2 ^ n) * 2 powi (binade ?q - 52)"
    by (simp only: to_double_pos [OF q])
  also have "\<dots> = of_int k * (2 powi (int n) * 2 powi (binade ?q - 52))" by simp
  also have "\<dots> = of_int k * 2 powi (int n + (binade ?q - 52))" by (simp only: pw2_add)
  also have "int n + (binade ?q - 52) = e" using n by simp
  finally show ?thesis .
qed

lemma to_double_of_nat:
  assumes "n < 2 ^ 53"
  shows "to_double (of_nat n) = of_nat n"
proof (cases "n = 0")
  case True
  then show ?thesis by simp
next
  case False
  have "int n < 2 ^ 53" using assms by (metis of_nat_less_iff of_nat_numeral of_nat_power)
  with False to_double_exact [of "int n" 0] show ?thesis by simp
qed

lemma to_double_one [simp]: "to_double 1 = 1"
  using to_double_of_nat [of 1] by simp

lemma binade_double:
  assumes "0 < q"
  shows "binade (2 * q) = binade q + 1"
proof (rule binade_unique)
  note b = binade_bounds [OF assms]
  have "(2::rat) powi (binade q + 1) = 2 * 2 powi binade q"
    by (simp add: power_int_add)
  then show "2 powi (binade q + 1) \<le> 2 * q" using b(1) by simp
  have "(2::rat) powi (binade q + 1 + 1) = 2 * 2 powi (binade q + 1)"
    by (simp add: power_int_add)
  then show "2 * q < 2 powi (binade q + 1 + 1)" using b(2) by simp
qed

lemma to_double_double: 
  assumes "0 \<le> q"
  shows "to_double (2 * q) = 2 * to_double q"
proof (cases "q = 0")
  case True
  then show ?thesis by simp
next
  case False
  with assms have q: "0 < q" by simp
  then have q2: "0 < 2 * q" by simp
  have "(2::rat) powi (52 - (binade q + 1)) * 2 = 2 powi (52 - (binade q + 1)) * 2 powi 1" by simp
  also have "\<dots> = 2 powi (52 - binade q)" by (simp only: pw2_add) simp
  finally have s: "2 * q * 2 powi (52 - (binade q + 1)) = q * 2 powi (52 - binade q)" by simp
  have "(2::rat) powi (binade q + 1 - 52) = 2 powi 1 * 2 powi (binade q - 52)"
    by (simp only: pw2_add) simp
  then have t: "(2::rat) powi (binade q + 1 - 52) = 2 * 2 powi (binade q - 52)" by simp
  show ?thesis
    by (simp only: to_double_pos [OF q] to_double_pos [OF q2] binade_double [OF q] s t)
qed

lemma calculate_ratio_bounds:
  assumes "0 \<le> m" and "2 * m \<le> len"
  shows "0 \<le> calculate_ratio m len" and "calculate_ratio m len \<le> 1"
proof -
  have "0 \<le> calculate_ratio m len \<and> calculate_ratio m len \<le> 1"
  proof (cases "len = 0")
    case True
    then show ?thesis by (simp add: calculate_ratio_def)
  next
    case False
    with assms have len: "1 \<le> len" by simp
    let ?dm = "to_double (of_int m)" and ?dl = "to_double (of_int len)"
    have "to_double 1 \<le> ?dl" using len by (intro to_double_mono) simp_all
    then have dl: "1 \<le> ?dl" by simp
    have "to_double 0 \<le> ?dm" using assms(1) by (intro to_double_mono) simp_all
    then have dm: "0 \<le> ?dm" by simp
    have "(2::rat) * of_int m = of_int (2 * m)" by simp
    also have "\<dots> \<le> of_int len" using assms(2) by (simp only: of_int_le_iff)
    finally have "to_double (2 * of_int m) \<le> ?dl" using assms(1) by (intro to_double_mono) simp_all
    then have le: "2 * ?dm \<le> ?dl" using assms(1) by (simp add: to_double_double)
    have x0: "0 \<le> 2 * ?dm / ?dl" using dm dl by simp
    have x1: "2 * ?dm / ?dl \<le> 1" using le dl by simp
    have "to_double 0 \<le> to_double (2 * ?dm / ?dl)" using x0 by (intro to_double_mono) simp_all
    moreover have "to_double (2 * ?dm / ?dl) \<le> to_double 1" using x0 x1 by (intro to_double_mono)
    ultimately show ?thesis using False by (simp add: calculate_ratio_def)
  qed
  then show "0 \<le> calculate_ratio m len" and "calculate_ratio m len \<le> 1" by simp_all
qed

subsection \<open>The match count of quick\_ratio\<close>

lemma count_get_fullbcount_loop:
  "count_get (fullbcount_loop b m) x 0 = count_get m x 0 + int (count (mset b) x)"
  by (induction b arbitrary: m) (simp_all add: count_get_def)

lemma matches_loop_mset:
  assumes "\<And>x. count M x = nat (case avail x of Some n \<Rightarrow> n | None \<Rightarrow> count_get fbc x 0)"
  shows "matches_loop a fbc avail m = m + int (size (mset a \<inter># M))"
  using assms
proof (induction a arbitrary: avail m M)
  case Nil
  then show ?case by simp
next
  case (Cons elt a)
  define numb where "numb = (case avail elt of Some n \<Rightarrow> n | None \<Rightarrow> count_get fbc elt 0)"
  have cnt: "count M elt = nat numb" by (simp add: Cons.prems numb_def)
  have "count (M - {#elt#}) x
          = nat (case (avail(elt \<mapsto> numb - 1)) x of Some n \<Rightarrow> n | None \<Rightarrow> count_get fbc x 0)" for x
  proof (cases "x = elt")
    case True
    have "count (M - {#elt#}) elt = nat numb - 1" by (simp add: cnt)
    also have "\<dots> = nat (numb - 1)" by simp
    finally show ?thesis using True by simp
  next
    case False
    then show ?thesis by (simp add: Cons.prems)
  qed
  then have IH: "matches_loop a fbc (avail(elt \<mapsto> numb - 1)) m'
                   = m' + int (size (mset a \<inter># (M - {#elt#})))" for m'
    by (rule Cons.IH)
  show ?case
  proof (cases "0 < numb")
    case True
    then have "elt \<in># M" using cnt by (simp add: count_greater_zero_iff [symmetric] del: count_greater_zero_iff)
    then have "mset (elt # a) \<inter># M = add_mset elt (mset a \<inter># (M - {#elt#}))"
      by (simp add: inter_add_left2)
    then show ?thesis using True by (simp add: IH numb_def [symmetric])
  next
    case False
    then have "elt \<notin># M" using cnt by (simp add: not_in_iff)
    then have "mset (elt # a) \<inter># M = mset a \<inter># (M - {#elt#})"
      by (simp add: inter_add_left1)
    then show ?thesis using False by (simp add: IH numb_def [symmetric])
  qed
qed

lemma quick_ratio_mset:
  "quick_ratio a b =
     calculate_ratio (int (size (mset a \<inter># mset b))) (int (length a) + int (length b))"
proof -
  have "matches_loop a (fullbcount_loop b Map.empty) Map.empty 0
          = 0 + int (size (mset a \<inter># mset b))"
    by (rule matches_loop_mset) (simp add: count_get_fullbcount_loop, simp add: count_get_def)
  then show ?thesis by (simp add: quick_ratio_def)
qed

lemma size_inter_le: "size (A \<inter># B) \<le> size A" "size (A \<inter># B) \<le> size B"
  by (simp_all add: size_mset_mono)

lemma quick_ratio_bounds: "0 \<le> quick_ratio a b" "quick_ratio a b \<le> 1"
proof -
  have "2 * int (size (mset a \<inter># mset b)) \<le> int (length a) + int (length b)"
    using size_inter_le [of "mset a" "mset b"] by simp
  then show "0 \<le> quick_ratio a b" "quick_ratio a b \<le> 1"
    by (simp_all add: quick_ratio_mset calculate_ratio_bounds)
qed

lemma to_double_numeral [simp]:
  "(numeral k :: nat) < 2 ^ 53 \<Longrightarrow> to_double (numeral k) = numeral k"
  using to_double_of_nat [of "numeral k"] by simp

subsection \<open>Empty strings\<close>

lemma lower_keeps_empty_ascii: "lower_keeps_empty ascii_lower"
  by (simp add: lower_keeps_empty_def ascii_lower_def)

lemma quick_ratio_empty_left: "quick_ratio [] b = (if b = [] then 1 else 0)"
  by (simp add: quick_ratio_def calculate_ratio_def)

lemma quick_ratio_empty_right: "a \<noteq> [] \<Longrightarrow> quick_ratio a [] = 0"
  by (simp add: quick_ratio_mset calculate_ratio_def)

lemma py_in_empty: "py_in sub [] \<longleftrightarrow> sub = []" "py_in [] s"
  by (simp_all add: py_in_sublist)

lemma load_rules_nonempty:
  assumes "load_rules fs path = Inr rules" and "r \<in> set rules"
  shows "r \<noteq> []" and "strip r = r"
proof -
  have "r \<noteq> [] \<and> strip r = r"
  proof (cases "fs path")
    case (Inl e)
    with assms show ?thesis by (cases e) (simp_all add: load_rules_def)
  next
    case (Inr lines)
    with assms have "r \<in> set (filter (\<lambda>r. r \<noteq> []) (map strip lines))"
      by (simp add: load_rules_def load_rules_filter del: map_eq_conv set_filter)
    then show ?thesis by (auto simp: strip_strip)
  qed
  then show "r \<noteq> []" and "strip r = r" by simp_all
qed

lemma check_rules_empty_text:
  assumes "lower_keeps_empty lower" and "\<forall>rule \<in> set rules. rule \<noteq> []"
    and "float_le (1 / 2) threshold"
  shows "check_rules lower [] rules threshold =
           map (\<lambda>rule. [(''rule'', Str rule), (''found'', Bool False),
                         (''similarity'', Float 0)]) rules"
proof -
  have e: "lower [] = []" using assms(1) by (simp add: lower_keeps_empty_def)
  have ne: "lower rule \<noteq> []" if "rule \<in> set rules" for rule
    using assms(1,2) that by (simp add: lower_keeps_empty_def)
  have th: "\<not> float_ge 0 threshold" using assms(3) by (cases threshold) simp_all
  show ?thesis
    by (simp add: check_rules_map e ne quick_ratio_empty_right py_in_empty th)
qed

subsection \<open>The response\<close>

lemma upload_response_Inr:
  assumes "load_rules fs path = Inr rules"
  shows "upload_response lower fs path fname text =
     Inr \<lparr>filename = fname,
          total_rules = int (length rules),
          rules_found = int (length rules)
            - int (length (summarize_missing (check_rules lower text rules default_threshold))),
          rules_missing = int (length (summarize_missing (check_rules lower text rules default_threshold))),
          missing_rules = summarize_missing (check_rules lower text rules default_threshold),
          details = check_rules lower text rules default_threshold,
          compliant = (summarize_missing (check_rules lower text rules default_threshold) = [])\<rparr>"
  using assms by (simp add: upload_response_def Let_def)

lemma upload_response_cases:
  assumes "upload_response lower fs path fname text = Inr r"
  obtains rules where "load_rules fs path = Inr rules"
proof (cases "load_rules fs path")
  case (Inl e)
  with assms show ?thesis by (simp add: upload_response_def)
next
  case (Inr rules)
  then show ?thesis by (rule that)
qed

lemma to_double_half [simp]: "to_double (1 / 2) = 1 / 2"
  using to_double_exact [of 1 "- 1"] by (simp add: power_int_minus)

section \<open>The claims\<close>

subsection \<open>load\_rules\<close>

text \<open>
  C8: \<open>load_rules\<close> takes every line read from the source, removes the whitespace at
  both ends of it, drops the lines that are empty after that and keeps the others in
  their order; when the file is not found it returns the empty list. Hence every rule
  returned is non-empty, begins and ends with a character that is not whitespace, and
  is not changed by trimming it again. The last part states what trimming is: \<open>strip\<close>
  removes a prefix and a suffix of whitespace only.
\<close>

theorem load_rules_trims_and_filters:
  "(fs path = Inr lines \<longrightarrow>
      load_rules fs path = Inr (filter (\<lambda>rule. rule \<noteq> []) (map strip lines))) \<and>
   (fs path = Inl FileNotFoundError \<longrightarrow> load_rules fs path = Inr []) \<and>
   (load_rules fs path = Inr rules \<longrightarrow>
      (\<forall>rule \<in> set rules. rule \<noteq> [] \<and> strip rule = rule \<and>
                          \<not> isspace (hd rule) \<and> \<not> isspace (last rule))) \<and>
   (\<exists>p t. line = p @ strip line @ t \<and> (\<forall>c \<in> set p. isspace c) \<and> (\<forall>c \<in> set t. isspace c))"
proof -
  have 1: "load_rules fs path = Inr (filter (\<lambda>rule. rule \<noteq> []) (map strip lines))"
    if "fs path = Inr lines"
    using that by (simp add: load_rules_def load_rules_filter del: map_eq_conv)
  have 2: "load_rules fs path = Inr []" if "fs path = Inl FileNotFoundError"
    using that by (simp add: load_rules_def)
  have 3: "rule \<noteq> [] \<and> strip rule = rule \<and> \<not> isspace (hd rule) \<and> \<not> isspace (last rule)"
    if "load_rules fs path = Inr rules" "rule \<in> set rules" for rule
  proof -
    from that have "rule \<noteq> []" "strip rule = rule" by (rule load_rules_nonempty)+
    with strip_ends [of rule] show ?thesis by simp
  qed
  from 1 2 3 strip_decomp [of line] show ?thesis by blast
qed

text \<open>
  A file with three lines: \<open>Hi\<close> between a space and a tab, a line of one space, and
  \<open>b\<close> without a line end; and a path that does not exist.
\<close>

theorem load_rules_trims_and_filters_witness:
  "load_rules (\<lambda>p. if p = [114] then Inr [[32, 72, 105, 9, 10], [32, 10], [98]]
                   else Inl FileNotFoundError) [114] = Inr [[72, 105], [98]] \<and>
   load_rules (\<lambda>p. if p = [114] then Inr [[32, 72, 105, 9, 10], [32, 10], [98]]
                   else Inl FileNotFoundError) [120] = Inr [] \<and>
   strip [72, 105] = [72, 105] \<and> \<not> isspace (hd [72, 105]) \<and> \<not> isspace (last [72, 105]) \<and>
   strip [98] = [98] \<and> \<not> isspace (hd [98]) \<and> \<not> isspace (last [98])"
proof -
  let ?fs = "\<lambda>p. if p = [114 :: nat] then Inr [[32, 72, 105, 9, 10], [32, 10], [98 :: nat]]
                  else Inl FileNotFoundError"
  have s: "strip [32, 72, 105, 9, 10] = [72, 105]" "strip [32, 10] = []" "strip [98] = [98]"
    by (simp_all add: strip_def isspace_def)
  note t = load_rules_trims_and_filters
             [of ?fs "[114]" "[[32, 72, 105, 9, 10], [32, 10], [98]]" "[[72, 105], [98]]"]
  from t have a: "load_rules ?fs [114] = Inr [[72, 105], [98]]" by (simp add: s)
  from load_rules_trims_and_filters [of ?fs "[120]"]
  have b: "load_rules ?fs [120] = Inr []" by simp
  from t a have "\<forall>rule \<in> set [[72, 105], [98 :: nat]]. rule \<noteq> [] \<and> strip rule = rule \<and>
                          \<not> isspace (hd rule) \<and> \<not> isspace (last rule)"
    by blast
  then have "strip [72, 105] = [72, 105] \<and> \<not> isspace (hd [72, 105]) \<and> \<not> isspace (last [72, 105]) \<and>
             strip [98] = [98] \<and> \<not> isspace (hd [98]) \<and> \<not> isspace (last [98])"
    by (simp del: list.sel last.simps)
  with a b show ?thesis by blast
qed

text \<open>
  C9: an exception of opening or reading the file other than \<open>FileNotFoundError\<close> is
  raised to the caller of \<open>load_rules\<close>, which then returns no value; only the missing
  file gives the empty list, and \<open>load_rules\<close> raises nothing else.
\<close>

theorem load_rules_other_errors_surface:
  "(fs path = Inl e \<and> e \<noteq> FileNotFoundError \<longrightarrow> load_rules fs path = Inl e) \<and>
   (load_rules fs path = Inl e \<longrightarrow> fs path = Inl e \<and> e \<noteq> FileNotFoundError) \<and>
   (fs path = Inl FileNotFoundError \<longrightarrow> load_rules fs path = Inr [])"
  by (auto simp: load_rules_def split: sum.splits py_error.splits)

theorem load_rules_other_errors_surface_witness:
  "load_rules (\<lambda>p. if p = [114] then Inl PermissionError else Inl FileNotFoundError) [114]
     = Inl PermissionError \<and>
   load_rules (\<lambda>p. if p = [114] then Inl PermissionError else Inl FileNotFoundError) [120]
     = Inr []"
  using
    load_rules_other_errors_surface
      [of "\<lambda>p. if p = [114] then Inl PermissionError else Inl FileNotFoundError" "[114]"
          PermissionError]
    load_rules_other_errors_surface
      [of "\<lambda>p. if p = [114] then Inl PermissionError else Inl FileNotFoundError" "[120]"]
  by simp

subsection \<open>check\_rules\<close>

text \<open>
  C1: for every document text, rule list and threshold, the \<open>found\<close> entry of a result is
  true exactly when the lowercased rule occurs in the lowercased text as a contiguous
  substring or the similarity stored in the same result is at least the threshold. In
  particular a rule whose lowercased form occurs in the lowercased text is found
  whatever the similarity and the threshold are.
\<close>

theorem check_rules_found_iff:
  "check_rules lower text rules threshold =
     map (\<lambda>rule.
       [(''rule'', Str rule),
        (''found'', Bool ((\<exists>p s. lower text = p @ lower rule @ s)
                          \<or> float_ge (quick_ratio (lower rule) (lower text)) threshold)),
        (''similarity'', Float (quick_ratio (lower rule) (lower text)))]) rules
   \<and> (\<forall>i < length rules. (\<exists>p s. lower text = p @ lower (rules ! i) @ s) \<longrightarrow>
          map_of (check_rules lower text rules threshold ! i) ''found'' = Some (Bool True))"
  by (simp add: check_rules_map py_in_iff)

text \<open>
  The rule \<open>ab\<close> occurs in the text \<open>xABy\<close> after lowercasing; it is found even with the
  threshold \<open>inf\<close>, which no similarity reaches.
\<close>

theorem check_rules_found_iff_witness:
  "(\<exists>p s. ascii_lower [120, 65, 66, 121] = p @ ascii_lower [97, 98] @ s) \<and>
   map_of (check_rules ascii_lower [120, 65, 66, 121] [[97, 98]] PosInf ! 0) ''found''
     = Some (Bool True)"
proof -
  have "ascii_lower [120, 65, 66, 121] = [120] @ ascii_lower [97, 98] @ [121]"
    by (simp add: ascii_lower_def)
  then have h: "\<exists>p s. ascii_lower [120, 65, 66, 121] = p @ ascii_lower [97, 98] @ s"
    by blast
  with check_rules_found_iff [of ascii_lower "[120, 65, 66, 121]" "[[97, 98]]" PosInf]
  show ?thesis by simp
qed

text \<open>
  C2 fails as stated. For the rule \<open>ABCD\<close> and the text \<open>DCBA\<close> the similarity is 1, and
  the rule is reported found at the default threshold, while a longest matching
  alignment of \<open>abcd\<close> and \<open>dcba\<close> has one pair only, which gives 1/4.
\<close>

theorem similarity_alignment_counterexample:
  "check_rules ascii_lower [68, 67, 66, 65] [[65, 66, 67, 68]] default_threshold
     = [[(''rule'', Str [65, 66, 67, 68]), (''found'', Bool True), (''similarity'', Float 1)]] \<and>
   spec_alignment_ratio (ascii_lower [65, 66, 67, 68]) (ascii_lower [68, 67, 66, 65]) = 1 / 4 \<and>
   map_of (hd (check_rules ascii_lower [68, 67, 66, 65] [[65, 66, 67, 68]] default_threshold))
       ''similarity''
     \<noteq> Some (Float (spec_alignment_ratio (ascii_lower [65, 66, 67, 68])
                                            (ascii_lower [68, 67, 66, 65])))"
  by (simp add: check_rules_map ascii_lower_def spec_alignment_ratio_def default_threshold_def
      quick_ratio_def calculate_ratio_def count_get_def)

text \<open>
  C2, amended: the similarity stored for a rule is the \<open>quick_ratio\<close> of the lowercased
  rule and the lowercased text. It is 1 when both are empty; otherwise the number of
  matches is the size of the intersection of the two strings as multisets of characters
  (for each character the smaller of its two numbers of occurrences, whatever the
  positions), and the similarity is twice that number divided by the sum of the two
  lengths, in binary64 arithmetic. Below \<open>2 ^ 53\<close> characters in total this is the
  exact quotient rounded once.
\<close>

theorem similarity_is_multiset_ratio:
  "map (\<lambda>result. map_of result ''similarity'') (check_rules lower text rules threshold)
     = map (\<lambda>rule. Some (Float (quick_ratio (lower rule) (lower text)))) rules \<and>
   quick_ratio a b =
     (if a = [] \<and> b = [] then 1
      else to_double (2 * to_double (of_nat (size (mset a \<inter># mset b)))
                        / to_double (of_nat (length a + length b)))) \<and>
   (length a + length b < 2 ^ 53 \<longrightarrow>
      quick_ratio a b =
        (if a = [] \<and> b = [] then 1
         else to_double (of_nat (2 * size (mset a \<inter># mset b)) / of_nat (length a + length b))))"
proof -
  have 1: "map (\<lambda>result. map_of result ''similarity'') (check_rules lower text rules threshold)
     = map (\<lambda>rule. Some (Float (quick_ratio (lower rule) (lower text)))) rules"
    by (simp add: check_rules_map comp_def)
  have 2: "quick_ratio a b =
     (if a = [] \<and> b = [] then 1
      else to_double (2 * to_double (of_nat (size (mset a \<inter># mset b)))
                        / to_double (of_nat (length a + length b))))"
  proof -
    have "int (length a) + int (length b) = 0 \<longleftrightarrow> a = [] \<and> b = []"
      by (simp add: add_nonneg_eq_0_iff)
    then show ?thesis by (simp add: quick_ratio_mset calculate_ratio_def)
  qed
  have 3: "quick_ratio a b =
        (if a = [] \<and> b = [] then 1
         else to_double (of_nat (2 * size (mset a \<inter># mset b)) / of_nat (length a + length b)))"
    if "length a + length b < 2 ^ 53"
  proof -
    have "size (mset a \<inter># mset b) \<le> length a" using size_inter_le(1) [of "mset a" "mset b"] by simp
    with that have "size (mset a \<inter># mset b) < 2 ^ 53" by simp
    then have "to_double (of_nat (size (mset a \<inter># mset b))) = of_nat (size (mset a \<inter># mset b))"
      by (rule to_double_of_nat)
    moreover have "to_double (of_nat (length a + length b)) = of_nat (length a + length b)"
      using that by (rule to_double_of_nat)
    ultimately show ?thesis by (simp only: 2) simp
  qed
  from 1 2 3 show ?thesis by blast
qed

theorem similarity_is_multiset_ratio_witness:
  "length [97 :: nat] + length [97 :: nat] < 2 ^ 53 \<and> quick_ratio [97 :: nat] [97] = 1"
proof -
  have h: "length [97 :: nat] + length [97 :: nat] < 2 ^ 53" by simp
  from similarity_is_multiset_ratio [of id "[]" "[]" PosInf "[97 :: nat]" "[97]"] h
  have "quick_ratio [97 :: nat] [97]
          = to_double (of_nat (2 * size (mset [97 :: nat] \<inter># mset [97]))
              / of_nat (length [97 :: nat] + length [97 :: nat]))"
    by simp
  then show ?thesis by simp
qed

text \<open>
  C3: for every rule list and document text, \<open>check_rules\<close> returns one result per rule,
  in the order of the rules, and the \<open>rule\<close> entry of each result is the rule as it was
  given, not its lowercased form.
\<close>

theorem check_rules_one_result_per_rule:
  "length (check_rules lower text rules threshold) = length rules \<and>
   map (\<lambda>result. map_of result ''rule'') (check_rules lower text rules threshold)
     = map (\<lambda>rule. Some (Str rule)) rules"
  by (simp add: check_rules_map comp_def)

text \<open>
  C4: for the empty document text, rules that are all non-empty and a threshold of at
  least 0.5, every result has \<open>found\<close> false and similarity 0, so \<open>summarize_missing\<close>
  returns all the rules; the response built from such rules reports all of them
  missing and none found, and it is compliant only if there is no rule at all.
\<close>

theorem empty_text_all_rules_missing:
  assumes "lower_keeps_empty lower" and "\<forall>rule \<in> set rules. rule \<noteq> []"
    and "float_le (1 / 2) threshold"
  shows "check_rules lower [] rules threshold =
           map (\<lambda>rule. [(''rule'', Str rule), (''found'', Bool False),
                         (''similarity'', Float 0)]) rules \<and>
         summarize_missing (check_rules lower [] rules threshold) = map Str rules \<and>
         (load_rules fs path = Inr rules \<longrightarrow>
            (\<exists>r. upload_response lower fs path fname [] = Inr r \<and>
                 missing_rules r = map Str rules \<and> rules_found r = 0 \<and>
                 (compliant r \<longleftrightarrow> rules = [])))"
proof -
  have c: "check_rules lower [] rules t =
           map (\<lambda>rule. [(''rule'', Str rule), (''found'', Bool False),
                         (''similarity'', Float 0)]) rules" if "float_le (1 / 2) t" for t
    using assms(1,2) that by (rule check_rules_empty_text)
  have s: "summarize_missing (check_rules lower [] rules t) = map Str rules"
    if "float_le (1 / 2) t" for t
    by (simp add: c [OF that] summarize_missing_filter comp_def dict_get_def)
  have d: "float_le (1 / 2) default_threshold" by (simp add: default_threshold_def)
  show ?thesis
    using c [OF assms(3)] s [OF assms(3)] by (auto simp: upload_response_Inr s [OF d])
qed

theorem empty_text_all_rules_missing_witness:
  "check_rules ascii_lower [] [[65, 99]] default_threshold
     = [[(''rule'', Str [65, 99]), (''found'', Bool False), (''similarity'', Float 0)]] \<and>
   summarize_missing (check_rules ascii_lower [] [[65, 99]] default_threshold) = [Str [65, 99]] \<and>
   (\<exists>r. upload_response ascii_lower (\<lambda>p. Inr [[65, 99, 10]]) [114] [102] [] = Inr r \<and>
        missing_rules r = [Str [65, 99]] \<and> rules_found r = 0 \<and> \<not> compliant r)"
proof -
  have 1: "lower_keeps_empty ascii_lower" by (rule lower_keeps_empty_ascii)
  have 2: "\<forall>rule \<in> set [[65, 99 :: nat]]. rule \<noteq> []" by simp
  have 3: "float_le (1 / 2) default_threshold" by (simp add: default_threshold_def)
  have 4: "load_rules (\<lambda>p. Inr [[65, 99, 10]]) [114] = Inr [[65, 99]]"
    by (simp add: load_rules_def strip_def isspace_def)
  from empty_text_all_rules_missing [OF 1 2 3, of "\<lambda>p. Inr [[65, 99, 10]]" "[114]" "[102]"] 4
  show ?thesis by (simp add: summarize_missing_filter dict_get_def)
qed

text \<open>
  C5: for every rule and document text, the similarity stored in the result lies between
  0 and 1.
\<close>

theorem similarity_in_unit_interval:
  "\<forall>result \<in> set (check_rules lower text rules threshold).
     \<exists>x. map_of result ''similarity'' = Some (Float x) \<and> 0 \<le> x \<and> x \<le> 1"
  by (simp add: check_rules_map quick_ratio_bounds)

theorem similarity_in_unit_interval_witness:
  "\<exists>x. map_of (hd (check_rules ascii_lower [66, 32, 79] [[98]] default_threshold)) ''similarity''
          = Some (Float x) \<and> 0 \<le> x \<and> x \<le> 1"
  using similarity_in_unit_interval [of ascii_lower "[66, 32, 79]" "[[98]]" default_threshold]
  by (simp add: check_rules_map)

text \<open>
  C10: an empty rule given to \<open>check_rules\<close> is reported found for every document text
  and every threshold, with similarity 1 when the text is empty too and 0 otherwise.
\<close>

theorem empty_rule_always_found:
  assumes "lower_keeps_empty lower"
  shows "\<forall>i < length rules. rules ! i = [] \<longrightarrow>
           check_rules lower text rules threshold ! i =
             [(''rule'', Str []), (''found'', Bool True),
              (''similarity'', Float (if text = [] then 1 else 0))]"
proof -
  have "lower [] = []" and "lower text = [] \<longleftrightarrow> text = []"
    using assms by (simp_all add: lower_keeps_empty_def)
  then show ?thesis
    by (simp add: check_rules_map quick_ratio_empty_left py_in_empty)
qed

theorem empty_rule_always_found_witness:
  "check_rules ascii_lower [72, 105] [[]] PosInf ! 0
     = [(''rule'', Str []), (''found'', Bool True), (''similarity'', Float 0)] \<and>
   check_rules ascii_lower [] [[]] PosInf ! 0
     = [(''rule'', Str []), (''found'', Bool True), (''similarity'', Float 1)]"
  using empty_rule_always_found [OF lower_keeps_empty_ascii, of "[[]]" "[72, 105]" PosInf]
    empty_rule_always_found [OF lower_keeps_empty_ascii, of "[[]]" "[]" PosInf]
  by simp

subsection \<open>summarize\_missing and the response\<close>

text \<open>
  C6: for the results of \<open>check_rules\<close>, \<open>summarize_missing\<close> returns the \<open>rule\<close> entries
  of exactly the results whose \<open>found\<close> entry is false, in their order; in the response
  \<open>missing_rules\<close> is that list for \<open>details\<close>, and its length is
  \<open>total_rules - rules_found\<close>. The function only reads its argument (\<open>get\<close> on each
  dictionary) and appends to a list of its own, so its model has no state to return
  besides that list.
\<close>

theorem summarize_missing_exact:
  "map Some (summarize_missing (check_rules lower text rules threshold))
     = map (\<lambda>result. map_of result ''rule'')
         (filter (\<lambda>result. map_of result ''found'' = Some (Bool False))
            (check_rules lower text rules threshold)) \<and>
   (upload_response lower fs path fname text = Inr r \<longrightarrow>
      missing_rules r = summarize_missing (details r) \<and>
      int (length (summarize_missing (details r))) = total_rules r - rules_found r)"
proof -
  have "map Some (summarize_missing (check_rules lower text rules threshold))
     = map (\<lambda>result. map_of result ''rule'')
         (filter (\<lambda>result. map_of result ''found'' = Some (Bool False))
            (check_rules lower text rules threshold))"
    by (simp add: summarize_missing_filter check_rules_map filter_map comp_def dict_get_def)
  moreover have "missing_rules r = summarize_missing (details r) \<and>
      int (length (summarize_missing (details r))) = total_rules r - rules_found r"
    if "upload_response lower fs path fname text = Inr r"
  proof -
    from that obtain rs where "load_rules fs path = Inr rs" by (rule upload_response_cases)
    from that upload_response_Inr [OF this, of lower fname "text"] show ?thesis by auto
  qed
  ultimately show ?thesis by blast
qed

theorem summarize_missing_exact_witness:
  "upload_response ascii_lower (\<lambda>p. Inr [[65, 10], [98, 10]]) [114] [102] [66, 32, 79]
     = Inr \<lparr>filename = [102], total_rules = 2, rules_found = 1, rules_missing = 1,
            missing_rules = [Str [65]],
            details =
              [[(''rule'', Str [65]), (''found'', Bool False), (''similarity'', Float 0)],
               [(''rule'', Str [98]), (''found'', Bool True), (''similarity'', Float (1 / 2))]],
            compliant = False\<rparr> \<and>
   [Str [65]] = summarize_missing
      [[(''rule'', Str [65]), (''found'', Bool False), (''similarity'', Float 0)],
       [(''rule'', Str [98]), (''found'', Bool True), (''similarity'', Float (1 / 2))]] \<and>
   int (length (summarize_missing
      [[(''rule'', Str [65]), (''found'', Bool False), (''similarity'', Float 0)],
       [(''rule'', Str [98]), (''found'', Bool True), (''similarity'', Float (1 / 2))]])) = 2 - 1"
proof -
  have l: "load_rules (\<lambda>p. Inr [[65, 10], [98, 10]]) [114] = Inr [[65], [98]]"
    by (simp add: load_rules_def strip_def isspace_def)
  have q: "quick_ratio [97 :: nat] [98, 32, 111] = 0" "quick_ratio [98 :: nat] [98, 32, 111] = 1 / 2"
    by (simp_all add: quick_ratio_def calculate_ratio_def count_get_def)
  have c: "check_rules ascii_lower [66, 32, 79] [[65], [98]] default_threshold
             = [[(''rule'', Str [65]), (''found'', Bool False), (''similarity'', Float 0)],
                [(''rule'', Str [98]), (''found'', Bool True), (''similarity'', Float (1 / 2))]]"
    by (simp add: check_rules_map ascii_lower_def q default_threshold_def)
  have u: "upload_response ascii_lower (\<lambda>p. Inr [[65, 10], [98, 10]]) [114] [102] [66, 32, 79]
     = Inr \<lparr>filename = [102], total_rules = 2, rules_found = 1, rules_missing = 1,
            missing_rules = [Str [65]],
            details =
              [[(''rule'', Str [65]), (''found'', Bool False), (''similarity'', Float 0)],
               [(''rule'', Str [98]), (''found'', Bool True), (''similarity'', Float (1 / 2))]],
            compliant = False\<rparr>"
    by (simp add: upload_response_Inr [OF l] c summarize_missing_filter dict_get_def)
  let ?r = "\<lparr>filename = [102], total_rules = 2, rules_found = 1, rules_missing = 1,
            missing_rules = [Str [65]],
            details =
              [[(''rule'', Str [65]), (''found'', Bool False), (''similarity'', Float 0)],
               [(''rule'', Str [98]), (''found'', Bool True), (''similarity'', Float (1 / 2))]],
            compliant = False\<rparr>"
  from summarize_missing_exact [of ascii_lower "[66, 32, 79]" "[]" NaN
      "\<lambda>p. Inr [[65, 10], [98, 10]]" "[114]" "[102]" ?r] u
  show ?thesis by simp
qed

text \<open>
  C7: in every response \<open>compliant\<close> holds exactly when \<open>missing_rules\<close> is empty, which
  is exactly when \<open>rules_missing\<close> is 0; when no rule is loaded the response is compliant
  with \<open>total_rules\<close> 0.
\<close>

theorem report_compliant_iff:
  "(upload_response lower fs path fname text = Inr r \<longrightarrow>
      (compliant r \<longleftrightarrow> missing_rules r = []) \<and>
      (missing_rules r = [] \<longleftrightarrow> rules_missing r = 0)) \<and>
   (load_rules fs path = Inr [] \<longrightarrow>
      (\<exists>r. upload_response lower fs path fname text = Inr r \<and> compliant r \<and> total_rules r = 0))"
proof -
  have "(compliant r \<longleftrightarrow> missing_rules r = []) \<and> (missing_rules r = [] \<longleftrightarrow> rules_missing r = 0)"
    if "upload_response lower fs path fname text = Inr r"
  proof -
    from that obtain rs where "load_rules fs path = Inr rs" by (rule upload_response_cases)
    from that upload_response_Inr [OF this, of lower fname "text"] show ?thesis by auto
  qed
  moreover have "\<exists>r. upload_response lower fs path fname text = Inr r \<and> compliant r \<and> total_rules r = 0"
    if "load_rules fs path = Inr []"
    by (simp add: upload_response_Inr [OF that] check_rules_map summarize_missing_filter)
  ultimately show ?thesis by blast
qed

theorem report_compliant_iff_witness:
  "upload_response ascii_lower (\<lambda>p. Inl FileNotFoundError) [114] [102] [72, 105]
     = Inr \<lparr>filename = [102], total_rules = 0, rules_found = 0, rules_missing = 0,
            missing_rules = [], details = [], compliant = True\<rparr> \<and>
   load_rules (\<lambda>p. Inl FileNotFoundError) [114] = Inr [] \<and>
   (\<exists>r. upload_response ascii_lower (\<lambda>p. Inl FileNotFoundError) [114] [102] [72, 105] = Inr r \<and>
        compliant r \<and> missing_rules r = [] \<and> rules_missing r = 0 \<and> total_rules r = 0)"
proof -
  let ?r = "\<lparr>filename = [102], total_rules = 0, rules_found = 0, rules_missing = 0,
            missing_rules = [], details = [], compliant = True\<rparr>"
  have l: "load_rules (\<lambda>p. Inl FileNotFoundError) [114] = Inr []"
    by (simp add: load_rules_def)
  have u: "upload_response ascii_lower (\<lambda>p. Inl FileNotFoundError) [114] [102] [72, 105] = Inr ?r"
    by (simp add: upload_response_Inr [OF l] check_rules_map summarize_missing_filter)
  from report_compliant_iff
         [of ascii_lower "\<lambda>p. Inl FileNotFoundError" "[114]" "[102]" "[72, 105]" ?r] l u
  show ?thesis by simp
qed

end
